theory Spec2Isabelle
  imports
    Complex_Main
    "HOL-Library.AList"
    "HOL-Library.Char_ord"
    "HOL-Library.List_Lexorder"
    "HOL-Library.Product_Lexorder"
    "HOL-Library.Multiset"
begin

section \<open>Values and documents\<close>

text \<open>
  The module \<^verbatim>\<open>src/functions/src/database.ts\<close> keeps transcripts and their
  paragraphs in a document database. A transcript document is a schemaless map of fields,
  written only through merge-writes and field-path updates, so it is modelled as a tree of
  plain JavaScript values.
\<close>

text \<open>
  Modelled from the spec: the enumeration \<^verbatim>\<open>ProgressType\<close> is declared in
  \<^verbatim>\<open>enums.ts\<close>, which is not among the sources. Its members are the states of
  section 4.3 of the specification.
\<close>

datatype ProgressType = Queued | Analysing | Transcribing | Saving | Done | Error

text \<open>
  \<open>Undefined\<close> is JavaScript's \<^verbatim>\<open>undefined\<close>, \<open>Enum p\<close> the runtime value
  of the enumeration member \<open>p\<close>, and \<open>FieldDelete\<close> the sentinel returned by
  \<^verbatim>\<open>admin.firestore.FieldValue.delete()\<close>. An object is the list of its own
  properties in insertion order. Arrays do not occur in what the module writes itself and
  are left out.
\<close>

datatype fvalue =
    Undefined
  | Null
  | Bool bool
  | Num real
  | Str string
  | Enum ProgressType
  | FieldDelete
  | Obj "(string \<times> fvalue) list"

type_synonym fields = "(string \<times> fvalue) list"

text \<open>
  Modelled from the spec: the interface \<^verbatim>\<open>IParagraph\<close> is declared in
  \<^verbatim>\<open>interfaces.ts\<close>, which is not among the sources. By section 3 of the
  specification a paragraph has a \<^verbatim>\<open>startTime\<close>, a number of seconds and the key
  of the ordered query, and a content that is opaque to the module. The interface
  \<^verbatim>\<open>ITranscript\<close> of the same file types the partial records that the module
  writes; they are built here as the object literals of the source.
\<close>

record IParagraph =
  startTime :: real
  payload :: string

section \<open>The document store\<close>

text \<open>
  The store is the database behind \<^verbatim>\<open>admin.firestore()\<close>. Its two collections are
  \<^verbatim>\<open>transcripts\<close>, keyed by the transcript identifier, and for each transcript the
  sub-collection \<^verbatim>\<open>transcripts/{id}/paragraphs\<close>, keyed by the pair of the transcript
  and the paragraph identifier. Each collection lists its documents in the order of their
  creation. The client library resolves a slash-separated path, with or without a leading
  slash, to the reference of a document or of a collection.
\<close>

record firestore =
  transcripts :: "(string \<times> fields) list"
  paragraphs :: "((string \<times> string) \<times> IParagraph) list"

datatype collection = Transcripts | Paragraphs string

datatype docref = TranscriptRef string | ParagraphRef string string

datatype error = InvalidArgument | AlreadyExists | NotFound | TypeError

type_synonym 'a outcome = "(error + 'a) \<times> firestore"

text \<open>A document reference names one document: a well-formed store holds it at most once.
  Failures of the transport and of authorisation, and the quotas of the service (such as
  a maximal number of writes in one batch), are outside the model: a primitive fails only
  for a reason that the contents of the store and the data written decide.\<close>

definition wf_store :: "firestore \<Rightarrow> bool" where
  "wf_store s = (distinct (map fst (transcripts s)) \<and> distinct (map fst (paragraphs s)))"

subsection \<open>Reading and writing fields by path\<close>

fun field_at :: "string list \<Rightarrow> fields \<Rightarrow> fvalue option" where
  "field_at [] d = None"
| "field_at [k] d = map_of d k"
| "field_at (k # ks) d = (case map_of d k of Some (Obj sub) \<Rightarrow> field_at ks sub | _ \<Rightarrow> None)"

text \<open>
  Setting a field path creates the maps on the way, and replaces a value on the way that is
  not a map. Deleting a field path whose parent is missing changes nothing.
\<close>

fun set_at :: "string list \<Rightarrow> fvalue \<Rightarrow> fields \<Rightarrow> fields" where
  "set_at [] v d = d"
| "set_at [k] v d = AList.update k v d"
| "set_at (k # ks) v d =
     AList.update k (Obj (set_at ks v (case map_of d k of Some (Obj sub) \<Rightarrow> sub | _ \<Rightarrow> []))) d"

fun delete_at :: "string list \<Rightarrow> fields \<Rightarrow> fields" where
  "delete_at [] d = d"
| "delete_at [k] d = AList.delete k d"
| "delete_at (k # ks) d =
     (case map_of d k of Some (Obj sub) \<Rightarrow> AList.update k (Obj (delete_at ks sub)) d | _ \<Rightarrow> d)"

text \<open>
  The store accepts no \<^verbatim>\<open>undefined\<close>, at any depth of the data
  (the comment in \<^verbatim>\<open>errorOccured\<close>: ``Firestore does not support undefined values'').
\<close>

fun has_undefined :: "fvalue \<Rightarrow> bool" where
  "has_undefined Undefined = True"
| "has_undefined (Obj kvs) = list_ex (\<lambda>kv. has_undefined (snd kv)) kvs"
| "has_undefined _ = False"

text \<open>
  A merge-write touches exactly the leaves of the data it is given: the field mask. A leaf
  is a value that is not a map, or an empty map.
\<close>

function field_mask :: "string list \<Rightarrow> fields \<Rightarrow> (string list \<times> fvalue) list" where
  "field_mask pre [] = []"
| "field_mask pre ((k, v) # rest) =
     (case v of
        Obj sub \<Rightarrow> if sub = [] then [(pre @ [k], Obj [])] else field_mask (pre @ [k]) sub
      | _ \<Rightarrow> [(pre @ [k], v)]) @ field_mask pre rest"
  by pat_completeness auto
termination
  by (relation "measure (\<lambda>(p, kvs). size_list (size_prod (\<lambda>_. 0) size) kvs)") auto

definition write_leaf :: "string list \<times> fvalue \<Rightarrow> fields \<Rightarrow> fields" where
  "write_leaf l d = (if snd l = FieldDelete then delete_at (fst l) d else set_at (fst l) (snd l) d)"

definition merge_fields :: "fields \<Rightarrow> fields \<Rightarrow> fields" where
  "merge_fields d partial = fold write_leaf (field_mask [] partial) d"

subsection \<open>Store primitives\<close>

text \<open>\<^verbatim>\<open>db.doc(path).get()\<close> followed by \<^verbatim>\<open>data()\<close>: \<open>None\<close> stands for the
  \<^verbatim>\<open>undefined\<close> that \<^verbatim>\<open>data()\<close> returns for a document that does not exist.\<close>

definition transcript_data :: "firestore \<Rightarrow> string \<Rightarrow> fields option" where
  "transcript_data s i = map_of (transcripts s) i"

text \<open>The fields stored for a transcript, none when its document does not exist.\<close>

definition stored_fields :: "firestore \<Rightarrow> string \<Rightarrow> fields" where
  "stored_fields s i = (case transcript_data s i of None \<Rightarrow> [] | Some d \<Rightarrow> d)"

text \<open>\<^verbatim>\<open>ref.set(data, {merge: true})\<close> on a transcript: rejects data that holds an
  \<^verbatim>\<open>undefined\<close>, creates the document when it is missing, and writes the leaves of
  the data into the fields stored.\<close>

definition set_merge :: "firestore \<Rightarrow> string \<Rightarrow> fields \<Rightarrow> unit outcome" where
  "set_merge s i partial =
     (if has_undefined (Obj partial) then (Inl InvalidArgument, s)
      else (Inr (),
        s\<lparr>transcripts := AList.update i (merge_fields (stored_fields s i) partial) (transcripts s)\<rparr>))"

fun delete_doc :: "firestore \<Rightarrow> docref \<Rightarrow> firestore" where
  "delete_doc s (TranscriptRef i) = s\<lparr>transcripts := AList.delete i (transcripts s)\<rparr>"
| "delete_doc s (ParagraphRef t p) = s\<lparr>paragraphs := AList.delete (t, p) (paragraphs s)\<rparr>"

text \<open>The operations a write batch can stage, as far as the module uses them:
  \<^verbatim>\<open>batch.create\<close> of a paragraph, \<^verbatim>\<open>batch.update\<close> of a transcript with field
  paths, and \<^verbatim>\<open>batch.delete\<close>.\<close>

datatype write_op =
    Create string string IParagraph
  | Update string "(string list \<times> fvalue) list"
  | Delete docref

fun apply_op :: "firestore \<Rightarrow> write_op \<Rightarrow> error + firestore" where
  "apply_op s (Create t p para) =
     (if map_of (paragraphs s) (t, p) \<noteq> None then Inl AlreadyExists
      else Inr (s\<lparr>paragraphs := paragraphs s @ [((t, p), para)]\<rparr>))"
| "apply_op s (Update i ups) =
     (case transcript_data s i of
        None \<Rightarrow> Inl NotFound
      | Some d \<Rightarrow>
          if list_ex (\<lambda>u. has_undefined (snd u)) ups then Inl InvalidArgument
          else Inr (s\<lparr>transcripts := AList.update i (fold write_leaf ups d) (transcripts s)\<rparr>))"
| "apply_op s (Delete r) = Inr (delete_doc s r)"

fun apply_ops :: "firestore \<Rightarrow> write_op list \<Rightarrow> error + firestore" where
  "apply_ops s [] = Inr s"
| "apply_ops s (w # ws) = (case apply_op s w of Inl e \<Rightarrow> Inl e | Inr s' \<Rightarrow> apply_ops s' ws)"

text \<open>\<^verbatim>\<open>batch.commit()\<close>: every staged operation is applied, or none is.\<close>

definition commit :: "firestore \<Rightarrow> write_op list \<Rightarrow> unit outcome" where
  "commit s batch = (case apply_ops s batch of Inl e \<Rightarrow> (Inl e, s) | Inr s' \<Rightarrow> (Inr (), s'))"

text \<open>The identifiers of the documents of a collection; a query ordered by
  \<^verbatim>\<open>__name__\<close> with a limit returns the references of the first ones in the order
  of the identifiers.\<close>

fun collection_ids :: "firestore \<Rightarrow> collection \<Rightarrow> string list" where
  "collection_ids s Transcripts = map fst (transcripts s)"
| "collection_ids s (Paragraphs t) = map (snd \<circ> fst) (filter (\<lambda>e. fst (fst e) = t) (paragraphs s))"

fun doc_in :: "collection \<Rightarrow> string \<Rightarrow> docref" where
  "doc_in Transcripts i = TranscriptRef i"
| "doc_in (Paragraphs t) p = ParagraphRef t p"

datatype query = Query collection nat

fun query_get :: "firestore \<Rightarrow> query \<Rightarrow> docref list" where
  "query_get s (Query c n) = map (doc_in c) (take n (sort (collection_ids s c)))"

text \<open>\<^verbatim>\<open>collection.orderBy("startTime").get()\<close> on the paragraphs of a transcript:
  ascending in \<^verbatim>\<open>startTime\<close>, and among equal values in the identifier.\<close>

definition paragraph_entries :: "firestore \<Rightarrow> string \<Rightarrow> (string \<times> IParagraph) list" where
  "paragraph_entries s t =
     map (\<lambda>e. (snd (fst e), snd e)) (filter (\<lambda>e. fst (fst e) = t) (paragraphs s))"

definition paragraphs_by_startTime :: "firestore \<Rightarrow> string \<Rightarrow> (string \<times> IParagraph) list" where
  "paragraphs_by_startTime s t =
     sort_key (\<lambda>e. (startTime (snd e), fst e)) (paragraph_entries s t)"

section \<open>The database module\<close>

definition updateTranscript :: "firestore \<Rightarrow> string \<Rightarrow> fields \<Rightarrow> unit outcome" where
  "updateTranscript s i transcript = set_merge s i transcript"

definition setProgress :: "firestore \<Rightarrow> string \<Rightarrow> ProgressType \<Rightarrow> unit outcome" where
  "setProgress s transcriptId progress =
     (let status = [(''progress'', Enum progress)];
          status' =
            (if progress = Analysing \<or> progress = Saving then
               AList.update ''percent'' (Num 0) status
             else if progress = Done then AList.update ''percent'' FieldDelete status
             else status)
      in updateTranscript s transcriptId [(''status'', Obj status')])"

definition setPercent :: "firestore \<Rightarrow> string \<Rightarrow> real \<Rightarrow> unit outcome" where
  "setPercent s transcriptId percent =
     updateTranscript s transcriptId [(''status'', Obj [(''percent'', Num percent)])]"

text \<open>\<open>newId\<close> is the identifier that \<^verbatim>\<open>db.collection(paragraphsRef).doc().id\<close>
  generates.\<close>

definition addParagraph ::
  "firestore \<Rightarrow> string \<Rightarrow> IParagraph \<Rightarrow> real \<Rightarrow> string \<Rightarrow> unit outcome" where
  "addParagraph s transcriptId paragraph percent newId =
     commit s
       [Create transcriptId newId paragraph,
        Update transcriptId [([''status'', ''percent''], Num percent)]]"

text \<open>\<open>serialized\<close> is the plain object that \<^verbatim>\<open>serializeError(error)\<close> returns. The
  package copies the properties of the error, nested objects member by member, and keeps
  members whose value is \<^verbatim>\<open>undefined\<close>.\<close>

definition errorOccured :: "firestore \<Rightarrow> string \<Rightarrow> fields \<Rightarrow> unit outcome" where
  "errorOccured s transcriptId serialized =
     (let serializedError = filter (\<lambda>kv. snd kv \<noteq> Undefined) serialized
      in updateTranscript s transcriptId [(''status'', Obj [(''error'', Obj serializedError)])])"

definition getParagraphs :: "firestore \<Rightarrow> string \<Rightarrow> IParagraph list" where
  "getParagraphs s transcriptId = map snd (paragraphs_by_startTime s transcriptId)"

text \<open>Reading a property of \<^verbatim>\<open>undefined\<close> or \<^verbatim>\<open>null\<close> throws a
  \<^verbatim>\<open>TypeError\<close>; a property that an object lacks, and any property of a number, a
  string or a boolean, reads as \<^verbatim>\<open>undefined\<close>.\<close>

fun property :: "fvalue \<Rightarrow> string \<Rightarrow> error + fvalue" where
  "property Undefined k = Inl TypeError"
| "property Null k = Inl TypeError"
| "property (Obj kvs) k = (case map_of kvs k of None \<Rightarrow> Inr Undefined | Some v \<Rightarrow> Inr v)"
| "property v k = Inr Undefined"

definition getProgress :: "firestore \<Rightarrow> string \<Rightarrow> error + fvalue" where
  "getProgress s i =
     (let transcript = (case transcript_data s i of None \<Rightarrow> Undefined | Some d \<Rightarrow> Obj d)
      in case property transcript ''status'' of
           Inl e \<Rightarrow> Inl e
         | Inr status \<Rightarrow> property status ''progress'')"

text \<open>
  \<^verbatim>\<open>deleteQueryBatch\<close> runs the query. Its first continuation yields \<open>0\<close> for an
  empty snapshot, and otherwise deletes the snapshot's documents in one batch and yields the
  size of the snapshot. Its second continuation resolves the promise when that number is
  \<open>0\<close>, and otherwise schedules the function again on the next tick; a failure on the
  way rejects the promise. Nothing in its text bounds the number of rounds, so the model is
  a partial function: \<open>None\<close> is a run that never settles its promise. \<open>issued\<close>
  records the batches committed so far; it is an observation of the run, not a variable of
  the source.
\<close>

partial_function (option) deleteQueryBatch ::
  "firestore \<Rightarrow> query \<Rightarrow> nat \<Rightarrow> docref list list
     \<Rightarrow> ((error + unit) \<times> firestore \<times> docref list list) option" where
  "deleteQueryBatch s q batchSize issued =
     (let snapshot = query_get s q;
          deleted =
            (if length snapshot = 0 then (Inr 0, s)
             else
               (case commit s (map Delete snapshot) of
                  (Inl e, s') \<Rightarrow> (Inl e, s')
                | (Inr u, s') \<Rightarrow> (Inr (length snapshot), s')))
      in case deleted of
           (Inl e, s') \<Rightarrow> Some (Inl e, s', issued)
         | (Inr numDeleted, s') \<Rightarrow>
             if numDeleted = 0 then Some (Inr (), s', issued)
             else deleteQueryBatch s' q batchSize (issued @ [snapshot]))"

definition deleteCollection ::
  "firestore \<Rightarrow> collection \<Rightarrow> nat \<Rightarrow> ((error + unit) \<times> firestore \<times> docref list list) option" where
  "deleteCollection s collectionPath batchSize =
     deleteQueryBatch s (Query collectionPath batchSize) batchSize []"

text \<open>
  \<^verbatim>\<open>deleteTranscript\<close> awaits \<^verbatim>\<open>deleteCollection\<close> on the paragraphs with
  batch size 10; a rejection ends the call there. Then it deletes the transcript document.
  The third component of the result lists the writes committed, in their order: the batches
  of \<^verbatim>\<open>deleteCollection\<close>, then the deletion of the one document. As \<open>issued\<close>
  above, it is an observation of the run.
\<close>

definition deleteTranscript ::
  "firestore \<Rightarrow> string \<Rightarrow> ((error + unit) \<times> firestore \<times> docref list list) option" where
  "deleteTranscript s transcriptId =
     (case deleteCollection s (Paragraphs transcriptId) 10 of
        None \<Rightarrow> None
      | Some (Inl e, s', issued) \<Rightarrow> Some (Inl e, s', issued)
      | Some (Inr u, s', issued) \<Rightarrow>
          Some (Inr (), delete_doc s' (TranscriptRef transcriptId),
                issued @ [[TranscriptRef transcriptId]]))"

section \<open>Notions used to state the properties\<close>

text \<open>Two field paths are comparable when one is a prefix of the other: writing one of them
  can change what is read at the other.\<close>

fun comparable :: "string list \<Rightarrow> string list \<Rightarrow> bool" where
  "comparable [] q = True"
| "comparable p [] = True"
| "comparable (a # p) (b # q) = (a = b \<and> comparable p q)"

text \<open>The paragraphs whose transcript document is absent. The ownership invariant of the
  data model says that there are none.\<close>

definition orphans :: "firestore \<Rightarrow> ((string \<times> string) \<times> IParagraph) list" where
  "orphans s = filter (\<lambda>e. transcript_data s (fst (fst e)) = None) (paragraphs s)"

text \<open>The batches as the specification describes them (section 4.2): the identifiers in
  their order, cut into consecutive runs of \<open>b\<close>, the last one possibly shorter.\<close>

function chunks :: "nat \<Rightarrow> 'a list \<Rightarrow> 'a list list" where
  "chunks b xs = (if b = 0 \<or> xs = [] then [] else take b xs # chunks b (drop b xs))"
  by pat_completeness auto
termination
  by (relation "measure (\<lambda>(b, xs). length xs)") auto

declare chunks.simps [simp del]

text \<open>The store without the documents of a collection, every other document as it was.\<close>

fun drop_collection :: "firestore \<Rightarrow> collection \<Rightarrow> firestore" where
  "drop_collection s Transcripts = s\<lparr>transcripts := []\<rparr>"
| "drop_collection s (Paragraphs t) =
     s\<lparr>paragraphs := filter (\<lambda>e. fst (fst e) \<noteq> t) (paragraphs s)\<rparr>"

text \<open>The order of the paragraphs in a snapshot: by \<^verbatim>\<open>startTime\<close>, and by identifier
  where the start times are equal.\<close>

definition before :: "string \<times> IParagraph \<Rightarrow> string \<times> IParagraph \<Rightarrow> bool" where
  "before a b =
     (startTime (snd a) < startTime (snd b) \<or>
      (startTime (snd a) = startTime (snd b) \<and> fst a < fst b))"

text \<open>A store with one transcript, in the middle of its transcription, and one paragraph.\<close>

definition store0 :: firestore where
  "store0 = \<lparr>transcripts =
      [(''t1'', [(''status'', Obj [(''progress'', Enum Transcribing), (''percent'', Num 40)]),
                 (''metadata'', Obj [(''audioDuration'', Num 12)])])],
     paragraphs = [((''t1'', ''p1''), \<lparr>startTime = 0, payload = ''hello''\<rparr>)]\<rparr>"

text \<open>A store with two transcripts; the first has five paragraphs, created out of order,
  two of them with the same start time.\<close>

definition store5 :: firestore where
  "store5 = \<lparr>transcripts = [(''t1'', [(''playbackGsUrl'', Str ''gs://a'')]), (''t2'', [])],
     paragraphs =
       [((''t1'', ''p3''), \<lparr>startTime = 2, payload = ''c''\<rparr>),
        ((''t1'', ''p1''), \<lparr>startTime = 0, payload = ''a''\<rparr>),
        ((''t2'', ''q1''), \<lparr>startTime = 0, payload = ''z''\<rparr>),
        ((''t1'', ''p5''), \<lparr>startTime = 7, payload = ''e''\<rparr>),
        ((''t1'', ''p2''), \<lparr>startTime = 2, payload = ''b''\<rparr>),
        ((''t1'', ''p4''), \<lparr>startTime = 5, payload = ''d''\<rparr>)]\<rparr>"

text \<open>A store whose transcript has twelve paragraphs, created in the reverse order of their
  identifiers.\<close>

definition store12 :: firestore where
  "store12 = \<lparr>transcripts = [(''t1'', []), (''t2'', [])],
     paragraphs =
       map (\<lambda>p. ((''t1'', p), \<lparr>startTime = 0, payload = p\<rparr>))
         [''l'', ''k'', ''j'', ''i'', ''h'', ''g'', ''f'', ''e'', ''d'', ''c'', ''b'', ''a'']\<rparr>"

text \<open>Two serialized errors. In the first the only undefined member, \<^verbatim>\<open>foo\<close>, is a
  member of the error itself. The second is an error with an undefined \<^verbatim>\<open>code\<close> and an
  own property \<^verbatim>\<open>details = {foo: undefined}\<close>.\<close>

definition flat_error :: fields where
  "flat_error = [(''name'', Str ''Error''), (''message'', Str ''boom''), (''foo'', Undefined)]"

definition nested_error :: fields where
  "nested_error =
     [(''name'', Str ''Error''), (''message'', Str ''boom''), (''code'', Undefined),
      (''details'', Obj [(''foo'', Undefined)])]"

section \<open>Field paths\<close>

lemma field_at_Nil [simp]: "field_at p [] = None"
  by (induction p "[] :: fields" rule: field_at.induct) simp_all

lemma field_at_set_at_same: "p \<noteq> [] \<Longrightarrow> field_at p (set_at p v d) = Some v"
  by (induction p v d rule: set_at.induct) (simp_all add: update_conv')

lemma field_at_delete_at_same: "p \<noteq> [] \<Longrightarrow> field_at p (delete_at p d) = None"
  by (induction p d rule: delete_at.induct)
     (auto simp: update_conv' delete_conv' split: option.splits fvalue.splits)

lemma field_at_set_at_other:
  "\<not> comparable p q \<Longrightarrow> field_at q (set_at p v d) = field_at q d"
proof (induction p q arbitrary: d rule: comparable.induct)
  case (1 q) then show ?case by simp
next
  case (2 a p) then show ?case by simp
next
  case (3 a p b q)
  show ?case
  proof (cases "a = b")
    case False
    then show ?thesis
      by (cases p; cases q) (simp_all add: update_conv')
  next
    case True
    with 3 show ?thesis
      by (cases p; cases q) (simp_all add: update_conv' split: option.splits fvalue.splits)
  qed
qed

lemma field_at_delete_at_other:
  "\<not> comparable p q \<Longrightarrow> field_at q (delete_at p d) = field_at q d"
proof (induction p q arbitrary: d rule: comparable.induct)
  case (1 q) then show ?case by simp
next
  case (2 a p) then show ?case by simp
next
  case (3 a p b q)
  show ?case
  proof (cases "a = b")
    case False
    then show ?thesis
      by (cases p; cases q)
         (simp_all add: update_conv' delete_conv' split: option.splits fvalue.splits)
  next
    case True
    with 3 show ?thesis
      by (cases p; cases q)
         (simp_all add: update_conv' delete_conv' split: option.splits fvalue.splits)
  qed
qed

lemma write_leaf_other:
  "\<not> comparable (fst l) q \<Longrightarrow> field_at q (write_leaf l d) = field_at q d"
  by (simp add: write_leaf_def field_at_set_at_other field_at_delete_at_other)

lemma fold_write_leaf_other:
  "\<forall>l \<in> set ls. \<not> comparable (fst l) q \<Longrightarrow> field_at q (fold write_leaf ls d) = field_at q d"
  by (induction ls arbitrary: d) (simp_all add: write_leaf_other)

text \<open>Every path of a field mask lies under the prefix it was computed for.\<close>

lemma field_mask_paths:
  "l \<in> set (field_mask pre kvs) \<Longrightarrow> \<exists>k rest. fst l = pre @ k # rest"
proof (induction pre kvs rule: field_mask.induct)
  case (1 pre)
  then show ?case by simp
next
  case (2 pre k v rest)
  then show ?case
    by (cases v) (auto split: if_splits)
qed

lemma stored_fields_update:
  "stored_fields (s\<lparr>transcripts := AList.update i d (transcripts s)\<rparr>) i = d"
  by (simp add: stored_fields_def transcript_data_def update_conv')

section \<open>Well-formed stores\<close>

text \<open>Every write of the store keeps it well-formed.\<close>

lemma delete_doc_wf: "wf_store s \<Longrightarrow> wf_store (delete_doc s r)"
  by (cases r) (simp_all add: wf_store_def distinct_delete)

lemma set_merge_wf: "wf_store s \<Longrightarrow> wf_store (snd (set_merge s i partial))"
  by (simp add: set_merge_def wf_store_def distinct_update)

lemma apply_op_wf:
  assumes "wf_store s" and "apply_op s w = Inr s'"
  shows "wf_store s'"
proof (cases w)
  case (Create t p para)
  with assms show ?thesis
    by (auto simp: wf_store_def map_of_eq_None_iff split: if_splits)
next
  case (Update i ups)
  with assms show ?thesis
    by (auto simp: wf_store_def distinct_update split: option.splits if_splits)
next
  case (Delete r)
  with assms show ?thesis using delete_doc_wf [OF assms(1), of r] by simp
qed

lemma apply_ops_wf: "wf_store s \<Longrightarrow> apply_ops s ws = Inr s' \<Longrightarrow> wf_store s'"
  by (induction ws arbitrary: s) (auto split: sum.splits dest: apply_op_wf)

lemma commit_wf: "wf_store s \<Longrightarrow> wf_store (snd (commit s ws))"
  by (auto simp: commit_def split: sum.splits dest: apply_ops_wf)

lemma wf_distinct_ids: "wf_store s \<Longrightarrow> distinct (collection_ids s c)"
proof (cases c)
  case Transcripts
  assume "wf_store s" then show ?thesis using Transcripts by (simp add: wf_store_def)
next
  case (Paragraphs t)
  assume "wf_store s"
  then have d: "distinct (map fst (filter (\<lambda>e. fst (fst e) = t) (paragraphs s)))"
    by (simp add: wf_store_def distinct_map_filter)
  have "inj_on snd (set (map fst (filter (\<lambda>e. fst (fst e) = t) (paragraphs s))))"
    by (auto simp: inj_on_def)
  with d have "distinct (map snd (map fst (filter (\<lambda>e. fst (fst e) = t) (paragraphs s))))"
    by (rule distinct_map [THEN iffD2, OF conjI])
  then show ?thesis using Paragraphs by (simp add: comp_def)
qed

section \<open>The progress state machine\<close>

lemma setProgress_result:
  "setProgress s i p =
     (Inr (), s\<lparr>transcripts := AList.update i
        (let d1 = set_at [''status'', ''progress''] (Enum p) (stored_fields s i) in
         if p = Analysing \<or> p = Saving then set_at [''status'', ''percent''] (Num 0) d1
         else if p = Done then delete_at [''status'', ''percent''] d1
         else d1) (transcripts s)\<rparr>)"
  by (cases p)
     (simp_all add: setProgress_def updateTranscript_def set_merge_def merge_fields_def
        write_leaf_def del: set_at.simps delete_at.simps)

text \<open>
  Claim C1. For every transcript identifier \<open>i\<close> and progress state \<open>p\<close>,
  \<open>setProgress\<close> succeeds and changes only the transcript document \<open>i\<close> (creating it when
  missing). In the document written, \<^verbatim>\<open>status.progress\<close> is \<open>p\<close>;
  \<^verbatim>\<open>status.percent\<close> is \<open>0\<close> for \<open>Analysing\<close> and \<open>Saving\<close>, absent for \<open>Done\<close>, and
  what it was before for every other state; and every field path that neither contains nor
  lies under \<^verbatim>\<open>status.progress\<close> or \<^verbatim>\<open>status.percent\<close> (such as
  \<^verbatim>\<open>metadata\<close> or \<^verbatim>\<open>playbackGsUrl\<close>) reads as before.
\<close>

theorem setProgress_writes:
  "let s' = snd (setProgress s i p); d = stored_fields s i; d' = stored_fields s' i in
     fst (setProgress s i p) = Inr () \<and>
     transcripts s' = AList.update i d' (transcripts s) \<and>
     paragraphs s' = paragraphs s \<and>
     field_at [''status'', ''progress''] d' = Some (Enum p) \<and>
     field_at [''status'', ''percent''] d' =
       (if p = Analysing \<or> p = Saving then Some (Num 0)
        else if p = Done then None
        else field_at [''status'', ''percent''] d) \<and>
     (\<forall>q. \<not> comparable [''status'', ''progress''] q \<and> \<not> comparable [''status'', ''percent''] q
          \<longrightarrow> field_at q d' = field_at q d)"
  unfolding Let_def setProgress_result snd_conv fst_conv stored_fields_update
  by (simp add: field_at_set_at_same field_at_set_at_other field_at_delete_at_same
        field_at_delete_at_other del: set_at.simps delete_at.simps field_at.simps)

theorem setProgress_writes_witness:
  "\<not> comparable [''status'', ''progress''] [''metadata'', ''audioDuration''] \<and>
   \<not> comparable [''status'', ''percent''] [''metadata'', ''audioDuration''] \<and>
   fst (setProgress store0 ''t1'' Done) = Inr () \<and>
   field_at [''status'', ''progress''] (stored_fields (snd (setProgress store0 ''t1'' Done)) ''t1'')
     = Some (Enum Done) \<and>
   field_at [''status'', ''percent''] (stored_fields (snd (setProgress store0 ''t1'' Done)) ''t1'')
     = None \<and>
   field_at [''metadata'', ''audioDuration'']
       (stored_fields (snd (setProgress store0 ''t1'' Done)) ''t1'')
     = Some (Num 12)"
proof -
  let ?d' = "stored_fields (snd (setProgress store0 ''t1'' Done)) ''t1''"
  have ev: "field_at [''metadata'', ''audioDuration''] (stored_fields store0 ''t1'') = Some (Num 12)"
    by (simp add: stored_fields_def transcript_data_def store0_def)
  have h: "\<not> comparable [''status'', ''progress''] [''metadata'', ''audioDuration''] \<and>
      \<not> comparable [''status'', ''percent''] [''metadata'', ''audioDuration'']"
    by simp
  note th = setProgress_writes [of store0 "''t1''" Done, unfolded Let_def]
  from th h have "field_at [''metadata'', ''audioDuration''] ?d' = Some (Num 12)"
    unfolding ev [symmetric] by blast
  moreover from th have "fst (setProgress store0 ''t1'' Done) = Inr ()"
    and "field_at [''status'', ''progress''] ?d' = Some (Enum Done)"
    and "field_at [''status'', ''percent''] ?d' = None"
    by (simp_all del: field_at.simps)
  ultimately show ?thesis using h by blast
qed

text \<open>
  Claim C8. \<open>setPercent\<close> is idempotent: a second call with the same identifier and the
  same percent value returns the same result and leaves the store as the first call left it.
\<close>

theorem setPercent_idempotent:
  "setPercent (snd (setPercent s i percent)) i percent = setPercent s i percent"
  by (simp add: setPercent_def updateTranscript_def set_merge_def merge_fields_def write_leaf_def
      stored_fields_def transcript_data_def update_conv' AList.update_last)

theorem setPercent_idempotent_witness:
  "setPercent (snd (setPercent store0 ''t1'' 50)) ''t1'' 50 = setPercent store0 ''t1'' 50 \<and>
   field_at [''status'', ''percent''] (stored_fields (snd (setPercent store0 ''t1'' 50)) ''t1'')
     = Some (Num 50) \<and>
   field_at [''status'', ''progress''] (stored_fields (snd (setPercent store0 ''t1'' 50)) ''t1'')
     = Some (Enum Transcribing)"
proof -
  have "field_at [''status'', ''percent''] (stored_fields (snd (setPercent store0 ''t1'' 50)) ''t1'')
      = Some (Num 50)"
    and "field_at [''status'', ''progress''] (stored_fields (snd (setPercent store0 ''t1'' 50)) ''t1'')
      = Some (Enum Transcribing)"
    by (simp_all add: setPercent_def updateTranscript_def set_merge_def merge_fields_def
        write_leaf_def stored_fields_def transcript_data_def store0_def)
  with setPercent_idempotent [of store0 "''t1''" 50] show ?thesis by blast
qed

section \<open>Recording an error\<close>

lemma errorOccured_result:
  "errorOccured s i serialized =
     (let e = filter (\<lambda>kv. snd kv \<noteq> Undefined) serialized in
      if has_undefined (Obj e) then (Inl InvalidArgument, s)
      else (Inr (), s\<lparr>transcripts := AList.update i
              (fold write_leaf
                 (if e = [] then [([''status'', ''error''], Obj [])]
                  else field_mask [''status'', ''error''] e)
                 (stored_fields s i)) (transcripts s)\<rparr>))"
  by (simp add: errorOccured_def updateTranscript_def set_merge_def merge_fields_def Let_def)

text \<open>Whatever the error, \<open>errorOccured\<close> leaves \<^verbatim>\<open>status.progress\<close> as it was.\<close>

lemma errorOccured_keeps_progress:
  "field_at [''status'', ''progress''] (stored_fields (snd (errorOccured s i serialized)) i)
     = field_at [''status'', ''progress''] (stored_fields s i)"
proof -
  let ?e = "filter (\<lambda>kv. snd kv \<noteq> Undefined) serialized"
  let ?ls = "if ?e = [] then [([''status'', ''error''], Obj [])] else field_mask [''status'', ''error''] ?e"
  have "\<not> comparable (fst l) [''status'', ''progress'']" if l: "l \<in> set ?ls" for l
  proof (cases "?e = []")
    case True
    with l show ?thesis by simp
  next
    case False
    with l have "l \<in> set (field_mask [''status'', ''error''] ?e)" by simp
    from field_mask_paths [OF this] obtain k rest
      where "fst l = [''status'', ''error''] @ k # rest" by blast
    then show ?thesis by simp
  qed
  then have "\<forall>l \<in> set ?ls. \<not> comparable (fst l) [''status'', ''progress'']" by blast
  from fold_write_leaf_other [OF this]
  show ?thesis
    unfolding errorOccured_result Let_def
    by (simp add: stored_fields_update del: field_at.simps)
qed

text \<open>An error whose only undefined member is its own \<^verbatim>\<open>foo\<close> is recorded without a
  \<^verbatim>\<open>foo\<close> key, and the rest of the transcript stays.\<close>

lemma errorOccured_flat_example:
  "errorOccured store0 ''t1'' flat_error =
     (Inr (), store0\<lparr>transcripts :=
        [(''t1'', [(''status'', Obj [(''progress'', Enum Transcribing), (''percent'', Num 40),
                      (''error'', Obj [(''name'', Str ''Error''), (''message'', Str ''boom'')])]),
                   (''metadata'', Obj [(''audioDuration'', Num 12)])])]\<rparr>)"
  by (simp add: errorOccured_result flat_error_def store0_def stored_fields_def transcript_data_def
      write_leaf_def)

text \<open>
  Claim C6. \<open>errorOccured\<close> is to remove every undefined-valued field of the serialized
  error and to write the result to \<^verbatim>\<open>status.error\<close>. The source removes the undefined
  members of the error itself only. For an error with an own property
  \<^verbatim>\<open>details = {foo: undefined}\<close> the undefined member of \<^verbatim>\<open>details\<close> stays, the
  store rejects the write, and nothing is recorded: the store is as before.
\<close>

theorem errorOccured_nested_undefined:
  "errorOccured store0 ''t1'' nested_error = (Inl InvalidArgument, store0)"
  by (simp add: errorOccured_def updateTranscript_def set_merge_def nested_error_def)

section \<open>Reading the progress\<close>

text \<open>
  Claim C10. For a transcript identifier whose document does not exist, \<open>getProgress\<close>
  returns neither a progress value nor a not-found result: reading \<^verbatim>\<open>status\<close> of the
  \<^verbatim>\<open>undefined\<close> record throws a \<^verbatim>\<open>TypeError\<close>.
\<close>

theorem getProgress_missing:
  "transcript_data s i = None \<Longrightarrow>
     getProgress s i = Inl TypeError \<and> getProgress s i \<noteq> Inl NotFound \<and>
     (\<forall>v. getProgress s i \<noteq> Inr v)"
  by (simp add: getProgress_def)

theorem getProgress_missing_witness:
  "transcript_data store0 ''t2'' = None \<and> getProgress store0 ''t2'' = Inl TypeError"
proof -
  have h: "transcript_data store0 ''t2'' = None"
    by (simp add: transcript_data_def store0_def)
  from getProgress_missing [OF h] h show ?thesis by blast
qed

section \<open>Appending a paragraph\<close>

lemma addParagraph_result:
  "addParagraph s t P pct n =
     (if map_of (paragraphs s) (t, n) \<noteq> None then (Inl AlreadyExists, s)
      else case transcript_data s t of
        None \<Rightarrow> (Inl NotFound, s)
      | Some d \<Rightarrow>
          (Inr (), s\<lparr>paragraphs := paragraphs s @ [((t, n), P)],
                    transcripts :=
                      AList.update t (set_at [''status'', ''percent''] (Num pct) d) (transcripts s)\<rparr>))"
  by (simp add: addParagraph_def commit_def transcript_data_def write_leaf_def
        split: option.splits del: set_at.simps)

text \<open>
  Claim C2. \<open>addParagraph\<close> commits the creation of the paragraph and the update of
  \<^verbatim>\<open>status.percent\<close> as one batch. Either the call succeeds, and then the paragraph did
  not exist before, is stored under the new identifier, and the transcript's
  \<^verbatim>\<open>status.percent\<close> is the given value; or the call fails, and then the store is the
  one before the call. No other outcome exists.
\<close>

theorem addParagraph_atomic:
  "(\<exists>s' d'. addParagraph s t P pct n = (Inr (), s') \<and>
       map_of (paragraphs s) (t, n) = None \<and>
       paragraphs s' = paragraphs s @ [((t, n), P)] \<and>
       map_of (paragraphs s') (t, n) = Some P \<and>
       transcript_data s' t = Some d' \<and>
       field_at [''status'', ''percent''] d' = Some (Num pct))
   \<or> (\<exists>e. addParagraph s t P pct n = (Inl e, s))"
  unfolding addParagraph_result
  by (cases "transcript_data s t")
     (auto simp: transcript_data_def update_conv' field_at_set_at_same map_add_def
        simp del: set_at.simps field_at.simps)

theorem addParagraph_atomic_witness:
  "fst (addParagraph store0 ''t1'' \<lparr>startTime = 3, payload = ''x''\<rparr> 42 ''p2'') = Inr () \<and>
   map_of (paragraphs (snd (addParagraph store0 ''t1'' \<lparr>startTime = 3, payload = ''x''\<rparr> 42 ''p2'')))
     (''t1'', ''p2'') = Some \<lparr>startTime = 3, payload = ''x''\<rparr> \<and>
   field_at [''status'', ''percent'']
     (stored_fields (snd (addParagraph store0 ''t1'' \<lparr>startTime = 3, payload = ''x''\<rparr> 42 ''p2'')) ''t1'')
     = Some (Num 42)"
proof -
  let ?r = "addParagraph store0 ''t1'' \<lparr>startTime = 3, payload = ''x''\<rparr> 42 ''p2''"
  have ok: "fst ?r = Inr ()"
    by (simp add: addParagraph_result store0_def transcript_data_def del: set_at.simps)
  from addParagraph_atomic [of store0 "''t1''" "\<lparr>startTime = 3, payload = ''x''\<rparr>" 42 "''p2''"] ok
  show ?thesis
    by (auto simp: stored_fields_def simp del: field_at.simps)
qed

text \<open>A collision of the paragraph identifier fails the batch as well, and the percent value
  stays.\<close>

lemma addParagraph_collision_example:
  "addParagraph store0 ''t1'' \<lparr>startTime = 3, payload = ''x''\<rparr> 42 ''p1'' = (Inl AlreadyExists, store0)"
  by (simp add: addParagraph_result store0_def)

text \<open>
  Claim C9. For a transcript identifier whose document does not exist, \<open>addParagraph\<close>
  fails and leaves the store as it was: with a fresh paragraph identifier the error is the
  one of the update of the missing parent. And whatever its arguments, \<open>addParagraph\<close>
  leaves the list of paragraphs without a transcript as it found it, so it never creates a
  paragraph whose transcript is absent.
\<close>

theorem addParagraph_missing_parent:
  "(transcript_data s t = None \<longrightarrow>
      addParagraph s t P pct n =
        (Inl (if map_of (paragraphs s) (t, n) = None then NotFound else AlreadyExists), s)) \<and>
   orphans (snd (addParagraph s t P pct n)) = orphans s"
  unfolding addParagraph_result
  by (cases "transcript_data s t")
     (auto simp: orphans_def transcript_data_def update_conv' simp del: set_at.simps
        intro!: filter_cong)

theorem addParagraph_missing_parent_witness:
  "transcript_data store0 ''t2'' = None \<and>
   addParagraph store0 ''t2'' \<lparr>startTime = 3, payload = ''x''\<rparr> 42 ''p2'' = (Inl NotFound, store0) \<and>
   orphans store0 = []"
proof -
  have h: "transcript_data store0 ''t2'' = None"
    by (simp add: transcript_data_def store0_def)
  have f: "map_of (paragraphs store0) (''t2'', ''p2'') = None"
    by (simp add: store0_def)
  have o: "orphans store0 = []"
    by (simp add: orphans_def transcript_data_def store0_def)
  from addParagraph_missing_parent [of store0 "''t2''" "\<lparr>startTime = 3, payload = ''x''\<rparr>" 42 "''p2''"] h f o
  show ?thesis by simp
qed

section \<open>Reading the paragraphs in order\<close>

lemma wf_distinct_entries: "wf_store s \<Longrightarrow> distinct (map fst (paragraph_entries s t))"
  using wf_distinct_ids [of s "Paragraphs t"] by (simp add: paragraph_entries_def comp_def)

lemma sorted_fst_of_pairs:
  "sorted (map (\<lambda>e. (f e, g e)) xs) \<Longrightarrow> sorted (map f xs)"
  by (induction xs) (auto simp: less_eq_prod_def)

lemma key_inj: "distinct (map fst xs) \<Longrightarrow> inj_on (\<lambda>e. (f (snd e), fst e)) (set xs)"
  by (auto simp: inj_on_def distinct_map intro: prod_eqI)

text \<open>Sorting by a key that tells the elements apart forgets the order they came in.\<close>

lemma sort_key_unique:
  assumes m: "mset xs = mset ys" and d: "distinct (map k xs)"
  shows "sort_key k xs = sort_key k ys"
proof -
  from m have s: "set xs = set ys" by (rule mset_eq_setD)
  from m have "mset (map k xs) = mset (map k ys)" by simp
  with d have d': "distinct (map k ys)" by (metis mset_eq_imp_distinct_iff)
  from d have i: "inj_on k (set xs)" by (simp add: distinct_map)
  have "map k (sort_key k xs) = map k (sort_key k ys)"
  proof (rule sorted_distinct_set_unique)
    show "sorted (map k (sort_key k xs))" by simp
    show "sorted (map k (sort_key k ys))" by simp
    show "distinct (map k (sort_key k xs))" using d by (simp add: distinct_map)
    show "distinct (map k (sort_key k ys))" using d' by (simp add: distinct_map)
    show "set (map k (sort_key k xs)) = set (map k (sort_key k ys))" using s by simp
  qed
  moreover have "inj_on k (set (sort_key k xs) \<union> set (sort_key k ys))" using i s by simp
  ultimately show ?thesis by (simp add: inj_on_map_eq_map)
qed

lemma entries_key_distinct:
  "wf_store s \<Longrightarrow> distinct (map (\<lambda>e. (startTime (snd e), fst e)) (paragraph_entries s t))"
proof -
  assume wf: "wf_store s"
  have d: "distinct (map fst (paragraph_entries s t))" by (rule wf_distinct_entries [OF wf])
  then have "distinct (paragraph_entries s t)" by (simp add: distinct_map)
  with key_inj [OF d] show ?thesis by (simp add: distinct_map)
qed

text \<open>
  Claim C5. For every transcript identifier, \<open>getParagraphs\<close> returns the paragraphs of
  the transcript, each once, in ascending order of \<^verbatim>\<open>startTime\<close>; it returns them in the
  order of the snapshot, in which a paragraph comes before another when its start time is
  smaller, or equal with a smaller identifier; and two stores that hold the same paragraphs,
  created in whatever order, give the same list.
\<close>

theorem getParagraphs_ordered:
  assumes "wf_store s"
  shows "sorted (map startTime (getParagraphs s t)) \<and>
    mset (getParagraphs s t) = mset (map snd (paragraph_entries s t)) \<and>
    getParagraphs s t = map snd (paragraphs_by_startTime s t) \<and>
    sorted_wrt before (paragraphs_by_startTime s t) \<and>
    (\<forall>s'. wf_store s' \<and> mset (paragraphs s') = mset (paragraphs s)
        \<longrightarrow> getParagraphs s' t = getParagraphs s t)"
proof -
  let ?k = "\<lambda>e :: string \<times> IParagraph. (startTime (snd e), fst e)"
  let ?es = "paragraph_entries s t"
  have srt: "sorted (map ?k (paragraphs_by_startTime s t))"
    unfolding paragraphs_by_startTime_def by simp
  have 1: "sorted (map startTime (getParagraphs s t))"
    using sorted_fst_of_pairs [OF srt] by (simp add: getParagraphs_def comp_def)
  have 2: "mset (getParagraphs s t) = mset (map snd ?es)"
    by (simp add: getParagraphs_def paragraphs_by_startTime_def)
  have dk: "distinct (map ?k (paragraphs_by_startTime s t))"
    unfolding paragraphs_by_startTime_def
    using entries_key_distinct [OF assms, of t] by (simp add: distinct_map)
  from srt dk have "sorted_wrt (<) (map ?k (paragraphs_by_startTime s t))"
    by (simp add: strict_sorted_iff)
  then have 3: "sorted_wrt before (paragraphs_by_startTime s t)"
    unfolding sorted_wrt_map
    by (rule sorted_wrt_mono_rel [rotated]) (auto simp: before_def less_prod_def)
  have 4: "getParagraphs s' t = getParagraphs s t"
    if "wf_store s'" and "mset (paragraphs s') = mset (paragraphs s)" for s'
  proof -
    from that(2) have "mset (paragraph_entries s' t) = mset ?es"
      by (simp add: paragraph_entries_def)
    from sort_key_unique [OF this entries_key_distinct [OF that(1)]]
    show ?thesis by (simp add: getParagraphs_def paragraphs_by_startTime_def)
  qed
  from 1 2 3 4 show ?thesis by (simp add: getParagraphs_def)
qed

theorem getParagraphs_ordered_witness:
  "wf_store store5 \<and>
   wf_store (store5\<lparr>paragraphs := rev (paragraphs store5)\<rparr>) \<and>
   mset (paragraphs (store5\<lparr>paragraphs := rev (paragraphs store5)\<rparr>)) = mset (paragraphs store5) \<and>
   getParagraphs (store5\<lparr>paragraphs := rev (paragraphs store5)\<rparr>) ''t1'' = getParagraphs store5 ''t1'' \<and>
   getParagraphs store5 ''t1'' =
     [\<lparr>startTime = 0, payload = ''a''\<rparr>, \<lparr>startTime = 2, payload = ''b''\<rparr>,
      \<lparr>startTime = 2, payload = ''c''\<rparr>, \<lparr>startTime = 5, payload = ''d''\<rparr>,
      \<lparr>startTime = 7, payload = ''e''\<rparr>] \<and>
   sorted (map startTime (getParagraphs store5 ''t1''))"
proof -
  let ?r = "store5\<lparr>paragraphs := rev (paragraphs store5)\<rparr>"
  have wf: "wf_store store5" by (simp add: wf_store_def store5_def)
  have wfr: "wf_store ?r" by (simp add: wf_store_def store5_def)
  have m: "mset (paragraphs ?r) = mset (paragraphs store5)" by simp
  have ev: "getParagraphs store5 ''t1'' =
     [\<lparr>startTime = 0, payload = ''a''\<rparr>, \<lparr>startTime = 2, payload = ''b''\<rparr>,
      \<lparr>startTime = 2, payload = ''c''\<rparr>, \<lparr>startTime = 5, payload = ''d''\<rparr>,
      \<lparr>startTime = 7, payload = ''e''\<rparr>]"
    by (simp add: getParagraphs_def paragraphs_by_startTime_def paragraph_entries_def store5_def)
  from getParagraphs_ordered [OF wf, of "''t1''"] wfr m
  have "getParagraphs ?r ''t1'' = getParagraphs store5 ''t1''"
    and "sorted (map startTime (getParagraphs store5 ''t1''))"
    by blast+
  with wf wfr m ev show ?thesis by blast
qed

section \<open>Deleting a collection in batches\<close>

lemma chunks_concat: "0 < b \<Longrightarrow> concat (chunks b xs) = xs"
proof (induction b xs rule: chunks.induct)
  case (1 b xs)
  then show ?case by (subst chunks.simps) auto
qed

lemma chunks_bounds: "ys \<in> set (chunks b xs) \<Longrightarrow> ys \<noteq> [] \<and> length ys \<le> b"
proof (induction b xs rule: chunks.induct)
  case (1 b xs)
  from "1.prems" have ne: "\<not> (b = 0 \<or> xs = [])"
    by (subst (asm) chunks.simps) (auto split: if_splits)
  with "1.prems" have "ys = take b xs \<or> ys \<in> set (chunks b (drop b xs))"
    by (subst (asm) chunks.simps) auto
  then show ?case using ne "1.IH" by auto
qed

lemma chunks_Nil_iff: "chunks b xs = [] \<longleftrightarrow> b = 0 \<or> xs = []"
  by (subst chunks.simps) simp

text \<open>Every batch but the last is full.\<close>

lemma chunks_full: "ys \<in> set (butlast (chunks b xs)) \<Longrightarrow> length ys = b"
proof (induction b xs rule: chunks.induct)
  case (1 b xs)
  from "1.prems" have ne: "\<not> (b = 0 \<or> xs = [])"
    by (subst (asm) chunks.simps) (auto split: if_splits)
  then have ch: "chunks b xs = take b xs # chunks b (drop b xs)"
    by (subst chunks.simps) simp
  show ?case
  proof (cases "chunks b (drop b xs) = []")
    case True
    with "1.prems" ch show ?thesis by simp
  next
    case False
    then have "drop b xs \<noteq> []" by (simp add: chunks_Nil_iff)
    then have full: "length (take b xs) = b" by simp
    from "1.prems" ch False
    have "ys = take b xs \<or> ys \<in> set (butlast (chunks b (drop b xs)))" by simp
    then show ?thesis using full "1.IH" [OF ne] by blast
  qed
qed

lemma chunks_five_by_two: "length xs = 5 \<Longrightarrow> map length (chunks 2 xs) = [2, 2, 1]"
proof -
  assume l: "length xs = 5"
  then have ne: "xs \<noteq> []" by auto
  have 1: "chunks 2 xs = take 2 xs # chunks 2 (drop 2 xs)"
    using ne by (subst chunks.simps) simp
  have 2: "chunks 2 (drop 2 xs) = take 2 (drop 2 xs) # chunks 2 (drop 4 xs)"
    using l by (subst chunks.simps) simp
  have 3: "chunks 2 (drop 4 xs) = take 2 (drop 4 xs) # chunks 2 (drop 6 xs)"
    using l by (subst chunks.simps) simp
  have 4: "chunks 2 (drop 6 xs) = []"
    using l by (subst chunks.simps) simp
  show ?thesis unfolding 1 2 3 4 using l by simp
qed

text \<open>A batch of deletions cannot fail, and removes the documents it names.\<close>

lemma apply_ops_deletes: "apply_ops s (map Delete rs) = Inr (fold (\<lambda>r s. delete_doc s r) rs s)"
  by (induction rs arbitrary: s) simp_all

lemma commit_deletes: "commit s (map Delete rs) = (Inr (), fold (\<lambda>r s. delete_doc s r) rs s)"
  by (simp add: commit_def apply_ops_deletes)

lemma delete_doc_ids:
  "collection_ids (delete_doc s (doc_in c i)) c = filter (\<lambda>j. j \<noteq> i) (collection_ids s c)"
  by (cases c)
     (auto simp: AList.delete_eq filter_map comp_def
        intro!: filter_cong arg_cong [where f = "map _"])

lemma delete_doc_drop: "drop_collection (delete_doc s (doc_in c i)) c = drop_collection s c"
  by (cases c)
     (auto simp: AList.delete_eq
        intro!: filter_cong arg_cong [where f = "\<lambda>x. _\<lparr>paragraphs := x\<rparr>"])

lemma fold_delete_ids:
  "collection_ids (fold (\<lambda>r s. delete_doc s r) (map (doc_in c) D) s) c
     = filter (\<lambda>j. j \<notin> set D) (collection_ids s c)"
  by (induction D arbitrary: s) (simp_all add: delete_doc_ids conj_commute)

lemma fold_delete_wf:
  "wf_store s \<Longrightarrow> wf_store (fold (\<lambda>r s. delete_doc s r) rs s)"
  by (induction rs arbitrary: s) (simp_all add: delete_doc_wf)

lemma fold_delete_drop:
  "drop_collection (fold (\<lambda>r s. delete_doc s r) (map (doc_in c) D) s) c = drop_collection s c"
  by (induction D arbitrary: s) (simp_all add: delete_doc_drop)

lemma filter_take_drop:
  "distinct l \<Longrightarrow> filter (\<lambda>j. j \<notin> set (take b l)) l = drop b l"
proof -
  assume d: "distinct l"
  let ?P = "\<lambda>j. j \<notin> set (take b l)"
  from d have disj: "set (take b l) \<inter> set (drop b l) = {}"
    by (metis append_take_drop_id distinct_append)
  have 1: "filter ?P (take b l) = []" by (simp add: filter_empty_conv)
  have 2: "filter ?P (drop b l) = drop b l" using disj by (auto simp: filter_id_conv)
  have "filter ?P l = filter ?P (take b l) @ filter ?P (drop b l)"
    by (metis append_take_drop_id filter_append)
  with 1 2 show ?thesis by simp
qed

lemma sort_after_batch:
  "distinct xs \<Longrightarrow> sort (filter (\<lambda>j. j \<notin> set (take b (sort xs))) xs) = drop b (sort xs)"
proof -
  assume "distinct xs"
  then have "distinct (sort xs)" by simp
  from filter_take_drop [OF this, of b]
  show ?thesis by (simp add: filter_sort)
qed

lemma drop_collection_empty: "collection_ids s c = [] \<Longrightarrow> drop_collection s c = s"
  by (cases c) (auto simp: filter_empty_conv filter_id_conv)

lemma drop_collection_ids: "collection_ids (drop_collection s c) c = []"
  by (cases c) (simp_all add: filter_empty_conv)

text \<open>One round of the loop on a collection that is not empty: the batch removes the first
  \<open>b\<close> identifiers and leaves the others.\<close>

lemma batch_shrinks:
  assumes wf: "wf_store s"
  shows "sort (collection_ids (fold (\<lambda>r s. delete_doc s r)
            (map (doc_in c) (take b (sort (collection_ids s c)))) s) c)
          = drop b (sort (collection_ids s c))"
    and "length (collection_ids (fold (\<lambda>r s. delete_doc s r)
            (map (doc_in c) (take b (sort (collection_ids s c)))) s) c)
          = length (collection_ids s c) - b"
proof -
  let ?s1 = "fold (\<lambda>r s. delete_doc s r) (map (doc_in c) (take b (sort (collection_ids s c)))) s"
  show 1: "sort (collection_ids ?s1 c) = drop b (sort (collection_ids s c))"
    unfolding fold_delete_ids by (rule sort_after_batch) (rule wf_distinct_ids [OF wf])
  have "length (collection_ids ?s1 c) = length (sort (collection_ids ?s1 c))" by simp
  also have "\<dots> = length (collection_ids s c) - b" unfolding 1 by simp
  finally show "length (collection_ids ?s1 c) = length (collection_ids s c) - b" .
qed

text \<open>The run of the loop, by induction on the number of documents left.\<close>

lemma deleteQueryBatch_result:
  assumes b: "0 < b"
  shows "wf_store s \<Longrightarrow>
    deleteQueryBatch s (Query c b) bs issued =
      Some (Inr (), drop_collection s c,
            issued @ map (map (doc_in c)) (chunks b (sort (collection_ids s c))))"
proof (induction "length (collection_ids s c)" arbitrary: s issued rule: less_induct)
  case less
  let ?ids = "sort (collection_ids s c)"
  let ?snap = "take b ?ids"
  show ?case
  proof (cases "collection_ids s c = []")
    case True
    then show ?thesis
      by (subst deleteQueryBatch.simps) (simp add: chunks.simps drop_collection_empty)
  next
    case False
    define s1 where "s1 = fold (\<lambda>r s. delete_doc s r) (map (doc_in c) ?snap) s"
    have ne: "?ids \<noteq> []" using False by (metis length_0_conv length_sort)
    with b have snap_ne: "?snap \<noteq> []" by simp
    have ids1: "sort (collection_ids s1 c) = drop b ?ids"
      unfolding s1_def by (rule batch_shrinks(1) [OF less.prems])
    have wf1: "wf_store s1" unfolding s1_def by (rule fold_delete_wf [OF less.prems])
    have drop1: "drop_collection s1 c = drop_collection s c"
      unfolding s1_def by (rule fold_delete_drop)
    have "length (collection_ids s1 c) = length (collection_ids s c) - b"
      unfolding s1_def by (rule batch_shrinks(2) [OF less.prems])
    with b False have lt: "length (collection_ids s1 c) < length (collection_ids s c)"
      by (cases "collection_ids s c") simp_all
    have ch: "chunks b ?ids = ?snap # chunks b (drop b ?ids)"
      using b ne by (subst chunks.simps) simp
    have step: "deleteQueryBatch s (Query c b) bs issued =
        deleteQueryBatch s1 (Query c b) bs (issued @ [map (doc_in c) ?snap])"
      using snap_ne b False
      by (subst deleteQueryBatch.simps) (simp add: commit_deletes s1_def Let_def min_def del: map_map)
    show ?thesis
      unfolding step less.hyps [OF lt wf1] drop1 ids1 ch by simp
  qed
qed

lemma doc_in_Paragraphs: "doc_in (Paragraphs t) = ParagraphRef t"
  by (rule ext) simp

lemma deleteCollection_result:
  assumes "wf_store s" and "0 < b"
  shows "deleteCollection s c b =
    Some (Inr (), drop_collection s c, map (map (doc_in c)) (chunks b (sort (collection_ids s c))))"
  unfolding deleteCollection_def using deleteQueryBatch_result [OF assms(2) assms(1), of c b "[]"]
  by simp

text \<open>
  Claim C3. For every collection and every positive batch size, \<open>deleteCollection\<close>
  resolves, and leaves the store without the documents of the collection and with every
  other document. The batches it commits are the identifiers of the collection in their
  order, cut into consecutive runs of the batch size: together they are all the documents,
  none is empty and none is longer than the batch size; the query on the final store
  returns no document. On a collection of five documents with batch size two the batches
  have the sizes 2, 2 and 1.
\<close>

theorem deleteCollection_batches:
  assumes "wf_store s" and "0 < b"
  shows "let issued = map (map (doc_in c)) (chunks b (sort (collection_ids s c))) in
     deleteCollection s c b = Some (Inr (), drop_collection s c, issued) \<and>
     collection_ids (drop_collection s c) c = [] \<and>
     query_get (drop_collection s c) (Query c b) = [] \<and>
     concat issued = map (doc_in c) (sort (collection_ids s c)) \<and>
     (\<forall>batch \<in> set issued. batch \<noteq> [] \<and> length batch \<le> b) \<and>
     (length (collection_ids s c) = 5 \<and> b = 2 \<longrightarrow> map length issued = [2, 2, 1])"
proof -
  let ?ids = "sort (collection_ids s c)"
  note 1 = deleteCollection_result [OF assms, of c]
  have 2: "concat (map (map (doc_in c)) (chunks b ?ids)) = map (doc_in c) ?ids"
    by (simp add: map_concat [symmetric] chunks_concat [OF assms(2)])
  have 3: "\<forall>batch \<in> set (map (map (doc_in c)) (chunks b ?ids)). batch \<noteq> [] \<and> length batch \<le> b"
    using chunks_bounds [of _ b ?ids] by auto
  have 4: "length (collection_ids s c) = 5 \<and> b = 2 \<longrightarrow>
      map length (map (map (doc_in c)) (chunks b ?ids)) = [2, 2, 1]"
    using chunks_five_by_two [of ?ids] by (auto simp: comp_def)
  show ?thesis
    unfolding Let_def using 1 2 3 4 by (simp add: drop_collection_ids)
qed

theorem deleteCollection_batches_witness:
  "wf_store store5 \<and> (0::nat) < 2 \<and> length (collection_ids store5 (Paragraphs ''t1'')) = 5 \<and>
   deleteCollection store5 (Paragraphs ''t1'') 2 =
     Some (Inr (),
       store5\<lparr>paragraphs := [((''t2'', ''q1''), \<lparr>startTime = 0, payload = ''z''\<rparr>)]\<rparr>,
       [[ParagraphRef ''t1'' ''p1'', ParagraphRef ''t1'' ''p2''],
        [ParagraphRef ''t1'' ''p3'', ParagraphRef ''t1'' ''p4''],
        [ParagraphRef ''t1'' ''p5'']])"
proof -
  have wf: "wf_store store5" by (simp add: wf_store_def store5_def)
  have ids: "sort (collection_ids store5 (Paragraphs ''t1'')) = [''p1'', ''p2'', ''p3'', ''p4'', ''p5'']"
    by (simp add: store5_def)
  have ch: "chunks 2 [''p1'', ''p2'', ''p3'', ''p4'', ''p5''] = [[''p1'', ''p2''], [''p3'', ''p4''], [''p5'']]"
    by (simp add: chunks.simps)
  have dc: "drop_collection store5 (Paragraphs ''t1'') =
      store5\<lparr>paragraphs := [((''t2'', ''q1''), \<lparr>startTime = 0, payload = ''z''\<rparr>)]\<rparr>"
    by (simp add: store5_def)
  have len: "length (collection_ids store5 (Paragraphs ''t1'')) = 5" by (simp add: store5_def)
  from deleteCollection_batches [OF wf, of 2 "Paragraphs ''t1''"]
  have "deleteCollection store5 (Paragraphs ''t1'') 2 =
      Some (Inr (), drop_collection store5 (Paragraphs ''t1''),
        map (map (doc_in (Paragraphs ''t1''))) (chunks 2 (sort (collection_ids store5 (Paragraphs ''t1'')))))"
    by (simp add: Let_def)
  then show ?thesis unfolding ids ch dc using wf len by simp
qed

text \<open>
  Claim C4. For every collection and every positive batch size the loop of
  \<open>deleteQueryBatch\<close> terminates: it returns, and the query on the store it returns is
  empty. A round whose query is empty returns at once, with the store as it is. A round
  whose query is not empty commits the deletion of the snapshot, after which the collection
  has fewer documents, by at most the batch size, and goes on from that store.
\<close>

theorem deleteQueryBatch_terminates:
  assumes "wf_store s" and "0 < b"
  shows "(\<exists>s' issued'. deleteQueryBatch s (Query c b) b issued = Some (Inr (), s', issued') \<and>
            query_get s' (Query c b) = []) \<and>
    (if query_get s (Query c b) = []
     then deleteQueryBatch s (Query c b) b issued = Some (Inr (), s, issued)
     else (\<exists>s1. commit s (map Delete (query_get s (Query c b))) = (Inr (), s1) \<and>
            wf_store s1 \<and>
            length (collection_ids s1 c) < length (collection_ids s c) \<and>
            length (collection_ids s c) \<le> length (collection_ids s1 c) + b \<and>
            deleteQueryBatch s (Query c b) b issued =
              deleteQueryBatch s1 (Query c b) b (issued @ [query_get s (Query c b)])))"
proof -
  have A: "\<exists>s' issued'. deleteQueryBatch s (Query c b) b issued = Some (Inr (), s', issued') \<and>
            query_get s' (Query c b) = []"
    using deleteQueryBatch_result [OF assms(2) assms(1), of c b issued]
    by (simp add: drop_collection_ids)
  have B: "deleteQueryBatch s (Query c b) b issued = Some (Inr (), s, issued)"
    if "query_get s (Query c b) = []"
    using that by (subst deleteQueryBatch.simps) (simp add: Let_def)
  have C: "\<exists>s1. commit s (map Delete (query_get s (Query c b))) = (Inr (), s1) \<and>
            wf_store s1 \<and>
            length (collection_ids s1 c) < length (collection_ids s c) \<and>
            length (collection_ids s c) \<le> length (collection_ids s1 c) + b \<and>
            deleteQueryBatch s (Query c b) b issued =
              deleteQueryBatch s1 (Query c b) b (issued @ [query_get s (Query c b)])"
    if ne: "query_get s (Query c b) \<noteq> []"
  proof -
    let ?snap = "query_get s (Query c b)"
    let ?s1 = "fold (\<lambda>r s. delete_doc s r) ?snap s"
    from ne have ids: "collection_ids s c \<noteq> []" by auto
    have 1: "commit s (map Delete ?snap) = (Inr (), ?s1)" by (rule commit_deletes)
    have 2: "wf_store ?s1" by (rule fold_delete_wf [OF assms(1)])
    have 3: "length (collection_ids ?s1 c) = length (collection_ids s c) - b"
      using batch_shrinks(2) [OF assms(1)] by simp
    have 4: "deleteQueryBatch s (Query c b) b issued =
        deleteQueryBatch ?s1 (Query c b) b (issued @ [?snap])"
      using ne ids assms(2)
      by (subst deleteQueryBatch.simps) (simp add: commit_deletes Let_def min_def del: map_map)
    from ids have "0 < length (collection_ids s c)" by simp
    with 1 2 3 4 assms(2) show ?thesis
      by (intro exI [of _ ?s1]) (simp del: query_get.simps)
  qed
  from A B C show ?thesis by simp
qed

theorem deleteQueryBatch_terminates_witness:
  "wf_store store5 \<and> (0::nat) < 2 \<and>
   query_get store5 (Query (Paragraphs ''t1'') 2) \<noteq> [] \<and>
   query_get store5 (Query (Paragraphs ''t3'') 2) = [] \<and>
   deleteQueryBatch store5 (Query (Paragraphs ''t3'') 2) 2 [] = Some (Inr (), store5, []) \<and>
   (\<exists>s' issued'. deleteQueryBatch store5 (Query (Paragraphs ''t1'') 2) 2 [] = Some (Inr (), s', issued') \<and>
       query_get s' (Query (Paragraphs ''t1'') 2) = []) \<and>
   (\<exists>s1. commit store5 (map Delete (query_get store5 (Query (Paragraphs ''t1'') 2))) = (Inr (), s1) \<and>
       length (collection_ids s1 (Paragraphs ''t1'')) < length (collection_ids store5 (Paragraphs ''t1'')) \<and>
       length (collection_ids store5 (Paragraphs ''t1'')) \<le> length (collection_ids s1 (Paragraphs ''t1'')) + 2)"
proof -
  have wf: "wf_store store5" by (simp add: wf_store_def store5_def)
  have b: "(0::nat) < 2" by simp
  have q1: "query_get store5 (Query (Paragraphs ''t1'') 2) \<noteq> []" by (simp add: store5_def)
  have q3: "query_get store5 (Query (Paragraphs ''t3'') 2) = []" by (simp add: store5_def)
  note t1 = deleteQueryBatch_terminates [OF wf b, of "Paragraphs ''t1''" "[]"]
  note t3 = deleteQueryBatch_terminates [OF wf b, of "Paragraphs ''t3''" "[]"]
  from t3 q3 have 3: "deleteQueryBatch store5 (Query (Paragraphs ''t3'') 2) 2 [] = Some (Inr (), store5, [])"
    by (simp del: query_get.simps)
  from t1 q1 have 1: "(\<exists>s' issued'. deleteQueryBatch store5 (Query (Paragraphs ''t1'') 2) 2 [] = Some (Inr (), s', issued') \<and>
       query_get s' (Query (Paragraphs ''t1'') 2) = []) \<and>
   (\<exists>s1. commit store5 (map Delete (query_get store5 (Query (Paragraphs ''t1'') 2))) = (Inr (), s1) \<and>
       length (collection_ids s1 (Paragraphs ''t1'')) < length (collection_ids store5 (Paragraphs ''t1'')) \<and>
       length (collection_ids store5 (Paragraphs ''t1'')) \<le> length (collection_ids s1 (Paragraphs ''t1'')) + 2)"
    by (simp only: if_False) blast
  from wf b q1 q3 3 1 show ?thesis by blast
qed

section \<open>Deleting a transcript\<close>

text \<open>
  Claim C7. \<open>deleteTranscript\<close> succeeds, and the writes it commits are, in this order:
  the paragraphs of the transcript in the order of their identifiers, in batches of ten, the
  last batch possibly shorter; then, as the last write, the deletion of the transcript
  document. The batches are those of \<open>deleteCollection\<close> with batch size 10, which
  leaves a store \<open>s1\<close> without these paragraphs and with the transcript documents as
  they were; the transcript document is deleted from \<open>s1\<close>. In the store returned the
  transcript document and all of its paragraphs are absent, and every other document is as
  before.
\<close>

theorem deleteTranscript_removes:
  assumes "wf_store s"
  shows "let batches = map (map (ParagraphRef t)) (chunks 10 (sort (collection_ids s (Paragraphs t))));
             s1 = drop_collection s (Paragraphs t);
             s2 = delete_doc s1 (TranscriptRef t) in
     deleteTranscript s t = Some (Inr (), s2, batches @ [[TranscriptRef t]]) \<and>
     concat batches = map (ParagraphRef t) (sort (collection_ids s (Paragraphs t))) \<and>
     (\<forall>batch \<in> set batches. batch \<noteq> [] \<and> length batch \<le> 10) \<and>
     (\<forall>batch \<in> set (butlast batches). length batch = 10) \<and>
     deleteCollection s (Paragraphs t) 10 = Some (Inr (), s1, batches) \<and>
     transcripts s1 = transcripts s \<and>
     collection_ids s1 (Paragraphs t) = [] \<and>
     transcript_data s2 t = None \<and>
     collection_ids s2 (Paragraphs t) = [] \<and>
     transcripts s2 = AList.delete t (transcripts s) \<and>
     paragraphs s2 = filter (\<lambda>e. fst (fst e) \<noteq> t) (paragraphs s)"
proof -
  let ?ids = "sort (collection_ids s (Paragraphs t))"
  let ?batches = "map (map (ParagraphRef t)) (chunks 10 ?ids)"
  have b: "(0::nat) < 10" by simp
  have dc: "deleteCollection s (Paragraphs t) 10 =
      Some (Inr (), drop_collection s (Paragraphs t), ?batches)"
    using deleteCollection_result [OF assms b, of "Paragraphs t"]
    by (simp add: doc_in_Paragraphs)
  have dt: "deleteTranscript s t =
      Some (Inr (), delete_doc (drop_collection s (Paragraphs t)) (TranscriptRef t),
            ?batches @ [[TranscriptRef t]])"
    by (simp add: deleteTranscript_def dc)
  have cc: "concat ?batches = map (ParagraphRef t) ?ids"
    by (simp add: map_concat [symmetric] chunks_concat [OF b])
  have bounds: "\<forall>batch \<in> set ?batches. batch \<noteq> [] \<and> length batch \<le> 10"
    using chunks_bounds [of _ 10 ?ids] by auto
  have full: "\<forall>batch \<in> set (butlast ?batches). length batch = 10"
    using chunks_full [of _ 10 ?ids] by (auto simp: map_butlast [symmetric])
  have rest: "transcripts (drop_collection s (Paragraphs t)) = transcripts s \<and>
      collection_ids (drop_collection s (Paragraphs t)) (Paragraphs t) = [] \<and>
      transcript_data (delete_doc (drop_collection s (Paragraphs t)) (TranscriptRef t)) t = None \<and>
      collection_ids (delete_doc (drop_collection s (Paragraphs t)) (TranscriptRef t)) (Paragraphs t) = [] \<and>
      transcripts (delete_doc (drop_collection s (Paragraphs t)) (TranscriptRef t))
        = AList.delete t (transcripts s) \<and>
      paragraphs (delete_doc (drop_collection s (Paragraphs t)) (TranscriptRef t))
        = filter (\<lambda>e. fst (fst e) \<noteq> t) (paragraphs s)"
    by (simp add: transcript_data_def delete_conv' filter_empty_conv)
  from dt cc bounds full dc rest show ?thesis
    unfolding Let_def by blast
qed

theorem deleteTranscript_removes_witness:
  "wf_store store12 \<and>
   deleteTranscript store12 ''t1'' =
     Some (Inr (), \<lparr>transcripts = [(''t2'', [])], paragraphs = []\<rparr>,
       [map (ParagraphRef ''t1'') [''a'', ''b'', ''c'', ''d'', ''e'', ''f'', ''g'', ''h'', ''i'', ''j''],
        map (ParagraphRef ''t1'') [''k'', ''l''],
        [TranscriptRef ''t1'']])"
proof -
  have wf: "wf_store store12" by (simp add: wf_store_def store12_def)
  have ids: "sort (collection_ids store12 (Paragraphs ''t1'')) =
      [''a'', ''b'', ''c'', ''d'', ''e'', ''f'', ''g'', ''h'', ''i'', ''j'', ''k'', ''l'']"
    by (simp add: store12_def)
  have ch: "chunks 10 [''a'', ''b'', ''c'', ''d'', ''e'', ''f'', ''g'', ''h'', ''i'', ''j'', ''k'', ''l''] =
      [[''a'', ''b'', ''c'', ''d'', ''e'', ''f'', ''g'', ''h'', ''i'', ''j''], [''k'', ''l'']]"
    by (simp add: chunks.simps)
  have ev: "delete_doc (drop_collection store12 (Paragraphs ''t1'')) (TranscriptRef ''t1'') =
     \<lparr>transcripts = [(''t2'', [])], paragraphs = []\<rparr>"
    by (simp add: store12_def)
  from deleteTranscript_removes [OF wf, of "''t1''"]
  have "deleteTranscript store12 ''t1'' =
      Some (Inr (), delete_doc (drop_collection store12 (Paragraphs ''t1'')) (TranscriptRef ''t1''),
        map (map (ParagraphRef ''t1'')) (chunks 10 (sort (collection_ids store12 (Paragraphs ''t1''))))
          @ [[TranscriptRef ''t1'']])"
    unfolding Let_def by blast
  then show ?thesis unfolding ids ch ev using wf by simp
qed

end
